theory Spec2Isabelle
  imports Complex_Main "HOL-Library.Multiset" "HOL-Library.Log_Nat"
begin

section \<open>The game engine (public/js/gameEngine.js)\<close>

subsection \<open>Math.random and fisherYatesShuffle\<close>

text \<open>
  \<^verbatim>\<open>Math.random()\<close> is the only source of nondeterminism. It is modelled as an oracle
  \<open>rnd\<close>: the \<open>k\<close>-th call of the run returns \<open>rnd k\<close>, and every function that draws
  random numbers takes the number of calls made so far and returns the new count.
  The contract of \<^verbatim>\<open>Math.random\<close> (a number in the half-open interval from 0 to 1) is
  the predicate \<open>valid_rng\<close>. The product and \<^verbatim>\<open>Math.floor\<close> are taken over the reals.
\<close>

type_synonym rng = "nat \<Rightarrow> real"

definition valid_rng :: "rng \<Rightarrow> bool" where
  "valid_rng rnd \<longleftrightarrow> (\<forall>k. 0 \<le> rnd k \<and> rnd k < 1)"

text \<open>
  The loop \<^verbatim>\<open>for (let i = arr.length - 1; i > 0; i--)\<close>: the third argument is the
  loop variable \<open>i\<close>; the loop exits at \<open>0\<close>. For the empty array \<^verbatim>\<open>arr.length - 1\<close>
  is \<open>-1\<close> and the body never runs, which the truncated subtraction on \<open>nat\<close> in
  \<open>fisherYatesShuffle\<close> reproduces (the loop starts, and stops, at \<open>0\<close>).
  Under \<open>valid_rng\<close> the index \<open>j\<close> is at most \<open>i\<close>, so both reads and both writes
  are in range.
\<close>

fun shuffle_loop :: "rng \<Rightarrow> nat \<Rightarrow> nat \<Rightarrow> 'a list \<Rightarrow> 'a list \<times> nat" where
  "shuffle_loop rnd k 0 arr = (arr, k)"
| "shuffle_loop rnd k (Suc n) arr =
     (let i = Suc n;
          j = nat \<lfloor>rnd k * real (i + 1)\<rfloor>;
          temp = arr ! i;
          arr1 = arr[i := arr ! j];
          arr2 = arr1[j := temp]
      in shuffle_loop rnd (Suc k) n arr2)"

definition fisherYatesShuffle :: "rng \<Rightarrow> nat \<Rightarrow> 'a list \<Rightarrow> 'a list \<times> nat" where
  "fisherYatesShuffle rnd k array = shuffle_loop rnd k (length array - 1) array"

subsection \<open>Data\<close>

text \<open>
  A poem object. The engine reads nothing but the id of a poem and compares ids with
  \<^verbatim>\<open>===\<close>; ids are integers here, on which strict equality is equality.
\<close>

record poem =
  poem_id :: int
  author :: string
  upperVerse :: string
  lowerVerse :: string

datatype error = Error string

text \<open>The private fields of the class \<^verbatim>\<open>GameEngine\<close>, without the leading underscore.\<close>

record GameEngine =
  allPoems :: "poem list"
  remainingCards :: "poem list"
  readingOrder :: "poem list"
  currentRound :: nat
  totalRounds :: nat
  score :: nat
  incorrectCount :: nat
  gameOver :: bool

text \<open>The object returned by \<^verbatim>\<open>getGameState\<close>.\<close>

record GameState =
  gs_remainingCards :: "poem list"
  gs_currentPoem :: "poem option"
  gs_currentRound :: nat
  gs_totalRounds :: nat
  gs_score :: nat
  gs_incorrectCount :: nat
  gs_isGameOver :: bool

text \<open>The object returned by \<^verbatim>\<open>selectCard\<close>.\<close>

record judgement =
  correct :: bool
  correctCard :: "poem option"

subsection \<open>Operations\<close>

text \<open>
  The constructor: the argument is typed as a list of poems, so of the guard
  \<^verbatim>\<open>!Array.isArray(poems) || poems.length === 0\<close> only the second disjunct can fire.
\<close>

definition new_GameEngine :: "poem list \<Rightarrow> error + GameEngine" where
  "new_GameEngine poems =
     (if poems = [] then Inl (Error ''poems must be a non-empty array'')
      else Inr \<lparr>allPoems = poems, remainingCards = [], readingOrder = [],
                currentRound = 0, totalRounds = 0, score = 0, incorrectCount = 0,
                gameOver = False\<rparr>)"

text \<open>
  \<^verbatim>\<open>this._readingOrder[this._currentRound]\<close> past the end of the array is
  \<^verbatim>\<open>undefined\<close> in JavaScript, which every caller treats like \<^verbatim>\<open>null\<close>; it is \<open>None\<close> here.
\<close>

definition getCurrentReadingCard :: "GameEngine \<Rightarrow> poem option" where
  "getCurrentReadingCard e =
     (if gameOver e \<or> currentRound e \<ge> totalRounds e then None
      else if currentRound e < length (readingOrder e)
           then Some (readingOrder e ! currentRound e)
           else None)"

definition selectCard :: "GameEngine \<Rightarrow> int \<Rightarrow> judgement \<times> GameEngine" where
  "selectCard e cardId =
     (if gameOver e then (\<lparr>correct = False, correctCard = None\<rparr>, e)
      else case getCurrentReadingCard e of
        None \<Rightarrow> (\<lparr>correct = False, correctCard = None\<rparr>, e)
      | Some currentPoem \<Rightarrow>
          (let isCorrect = (cardId = poem_id currentPoem);
               e' = (if isCorrect
                     then e\<lparr>score := score e + 1,
                            remainingCards :=
                              filter (\<lambda>card. poem_id card \<noteq> cardId) (remainingCards e)\<rparr>
                     else e\<lparr>incorrectCount := incorrectCount e + 1\<rparr>)
           in (\<lparr>correct = isCorrect, correctCard = Some currentPoem\<rparr>, e')))"

definition nextRound :: "GameEngine \<Rightarrow> bool \<times> GameEngine" where
  "nextRound e =
     (if gameOver e then (False, e)
      else let e1 = e\<lparr>currentRound := currentRound e + 1\<rparr>
           in if currentRound e1 \<ge> totalRounds e1 \<or> length (remainingCards e1) = 0
              then (False, e1\<lparr>gameOver := True\<rparr>)
              else (True, e1))"

definition isGameOver :: "GameEngine \<Rightarrow> bool" where
  "isGameOver e = gameOver e"

definition getGameState :: "GameEngine \<Rightarrow> GameState" where
  "getGameState e =
     \<lparr>gs_remainingCards = remainingCards e,
      gs_currentPoem = getCurrentReadingCard e,
      gs_currentRound = currentRound e + 1,
      gs_totalRounds = totalRounds e,
      gs_score = score e,
      gs_incorrectCount = incorrectCount e,
      gs_isGameOver = gameOver e\<rparr>"

text \<open>\<^verbatim>\<open>initGame\<close> returns the game state, the updated engine and the new call count of the oracle.\<close>

definition initGame :: "rng \<Rightarrow> nat \<Rightarrow> GameEngine \<Rightarrow> GameState \<times> GameEngine \<times> nat" where
  "initGame rnd k e =
     (let (ro, k1) = fisherYatesShuffle rnd k (allPoems e);
          (rc, k2) = fisherYatesShuffle rnd k1 (allPoems e);
          e' = e\<lparr>readingOrder := ro, remainingCards := rc, totalRounds := length ro,
                 currentRound := 0, score := 0, incorrectCount := 0, gameOver := False\<rparr>
      in (getGameState e', e', k2))"

subsection \<open>Runs of the engine\<close>

text \<open>
  A game is created by the constructor and initialised by \<^verbatim>\<open>initGame\<close>; afterwards
  the caller issues \<^verbatim>\<open>selectCard\<close> and \<^verbatim>\<open>nextRound\<close> calls in any order.
\<close>

definition newGame :: "rng \<Rightarrow> nat \<Rightarrow> poem list \<Rightarrow> error + GameEngine" where
  "newGame rnd k poems =
     (case new_GameEngine poems of
        Inl err \<Rightarrow> Inl err
      | Inr e \<Rightarrow> Inr (fst (snd (initGame rnd k e))))"

datatype call = SelectCard int | NextRound

fun call_step :: "GameEngine \<Rightarrow> call \<Rightarrow> GameEngine" where
  "call_step e (SelectCard cardId) = snd (selectCard e cardId)"
| "call_step e NextRound = snd (nextRound e)"

fun run :: "GameEngine \<Rightarrow> call list \<Rightarrow> GameEngine" where
  "run e [] = e"
| "run e (c # cs) = run (call_step e c) cs"

text \<open>The number of \<^verbatim>\<open>selectCard\<close> calls of a run that are made while the game is not over.\<close>

fun judged :: "GameEngine \<Rightarrow> call list \<Rightarrow> nat" where
  "judged e [] = 0"
| "judged e (SelectCard cardId # cs) =
     (if gameOver e then 0 else 1) + judged (call_step e (SelectCard cardId)) cs"
| "judged e (NextRound # cs) = judged (call_step e NextRound) cs"

subsection \<open>Invariants of reachable engine states\<close>

text \<open>
  \<open>engine_inv\<close>: the round index stays within the reading order, strictly while the
  game runs. \<open>pool_inv\<close>: reading order and pool only hold poems of the collection, and
  the pool holds every id at most once.
\<close>

definition engine_inv :: "GameEngine \<Rightarrow> bool" where
  "engine_inv e \<longleftrightarrow>
     totalRounds e = length (readingOrder e) \<and> currentRound e \<le> totalRounds e \<and>
     (gameOver e \<or> currentRound e < totalRounds e)"

definition pool_inv :: "poem list \<Rightarrow> GameEngine \<Rightarrow> bool" where
  "pool_inv poems e \<longleftrightarrow>
     set (readingOrder e) \<subseteq> set poems \<and> set (remainingCards e) \<subseteq> set poems \<and>
     distinct (map poem_id (remainingCards e))"

subsection \<open>Sample inputs\<close>

definition rnd0 :: rng where
  "rnd0 = (\<lambda>k. 0)"

definition poem1 :: poem where
  "poem1 = \<lparr>poem_id = 1, author = ''a1'', upperVerse = ''u1'', lowerVerse = ''l1''\<rparr>"

definition poem2 :: poem where
  "poem2 = \<lparr>poem_id = 2, author = ''a2'', upperVerse = ''u2'', lowerVerse = ''l2''\<rparr>"

text \<open>The games that \<open>newGame rnd0 0\<close> starts from one and from two poems.\<close>

definition game2 :: GameEngine where
  "game2 = \<lparr>allPoems = [poem1, poem2], remainingCards = [poem2, poem1],
             readingOrder = [poem2, poem1], currentRound = 0, totalRounds = 2,
             score = 0, incorrectCount = 0, gameOver = False\<rparr>"

definition game1 :: GameEngine where
  "game1 = \<lparr>allPoems = [poem1], remainingCards = [poem1],
             readingOrder = [poem1], currentRound = 0, totalRounds = 1,
             score = 0, incorrectCount = 0, gameOver = False\<rparr>"

section \<open>JavaScript values\<close>

















section \<open>Binary64 arithmetic\<close>









section \<open>The score manager (public/js/scoreManager.js)\<close>












subsection \<open>Sample states\<close>





section \<open>The poem validator (src/poemValidator.js)\<close>








subsection \<open>Functions used to describe the loop\<close>


fun present :: "'a option list \<Rightarrow> 'a list" where
  "present [] = []"
| "present (None # ps) = present ps"
| "present (Some p # ps) = p # present ps"




subsection \<open>Sample collections\<close>






section \<open>Properties of the game engine\<close>

subsection \<open>The shuffle\<close>

lemma random_index_le:
  assumes "0 \<le> r" "r < 1"
  shows "nat \<lfloor>r * real (i + 1)\<rfloor> \<le> i"
proof -
  have "r * real (i + 1) < real (i + 1)"
    using assms by simp
  then have "\<lfloor>r * real (i + 1)\<rfloor> < int (i + 1)"
    by (simp add: floor_less_iff)
  then show ?thesis by simp
qed

lemma shuffle_loop_length: "length (fst (shuffle_loop rnd k i arr)) = length arr"
  by (induction i arbitrary: k arr) (simp_all add: Let_def)

lemma swap_mset:
  assumes "i < length arr" "j < length arr"
  shows "mset (arr[i := arr ! j, j := arr ! i]) = mset arr"
  using mset_swap [OF assms(2) assms(1)] .

lemma shuffle_loop_mset:
  assumes "valid_rng rnd" "i < length arr"
  shows "mset (fst (shuffle_loop rnd k i arr)) = mset arr"
  using assms(2)
proof (induction i arbitrary: k arr)
  case 0
  then show ?case by simp
next
  case (Suc n)
  let ?j = "nat \<lfloor>rnd k * real (Suc n + 1)\<rfloor>"
  let ?arr2 = "arr[Suc n := arr ! ?j, ?j := arr ! Suc n]"
  have "?j \<le> Suc n"
    using assms(1) random_index_le [of "rnd k" "Suc n"] by (simp add: valid_rng_def)
  with Suc.prems have j: "?j < length arr" by simp
  have "mset (fst (shuffle_loop rnd (Suc k) n ?arr2)) = mset ?arr2"
    using Suc.prems by (intro Suc.IH) simp
  also have "\<dots> = mset arr"
    using Suc.prems j by (rule swap_mset)
  finally show ?case by (simp add: Let_def)
qed

lemma fisherYatesShuffle_length: "length (fst (fisherYatesShuffle rnd k xs)) = length xs"
  by (simp add: fisherYatesShuffle_def shuffle_loop_length)

lemma fisherYatesShuffle_mset:
  assumes "valid_rng rnd"
  shows "mset (fst (fisherYatesShuffle rnd k xs)) = mset xs"
proof (cases xs)
  case Nil
  then show ?thesis by (simp add: fisherYatesShuffle_def)
next
  case (Cons x xs')
  then show ?thesis
    using assms by (simp add: fisherYatesShuffle_def shuffle_loop_mset)
qed

subsection \<open>What the constructor and initGame establish\<close>

lemma newGame_Inr:
  assumes "newGame rnd k poems = Inr e"
  shows "poems \<noteq> []"
    and "allPoems e = poems"
    and "readingOrder e = fst (fisherYatesShuffle rnd k poems)"
    and "remainingCards e =
           fst (fisherYatesShuffle rnd (snd (fisherYatesShuffle rnd k poems)) poems)"
    and "totalRounds e = length poems"
    and "currentRound e = 0" and "score e = 0" and "incorrectCount e = 0"
    and "\<not> gameOver e"
  using assms
  by (auto simp: newGame_def new_GameEngine_def initGame_def Let_def
        case_prod_unfold fisherYatesShuffle_length split: if_splits)

lemma newGame_nonempty:
  assumes "poems \<noteq> []"
  shows "\<exists>e. newGame rnd k poems = Inr e"
  using assms by (simp add: newGame_def new_GameEngine_def)

lemma newGame_empty: "newGame rnd k [] = Inl (Error ''poems must be a non-empty array'')"
  by (simp add: newGame_def new_GameEngine_def)

lemma engine_inv_newGame:
  assumes "newGame rnd k poems = Inr e"
  shows "engine_inv e"
  using newGame_Inr [OF assms]
  by (simp add: engine_inv_def fisherYatesShuffle_length)

lemma pool_inv_newGame:
  assumes "valid_rng rnd" "distinct (map poem_id poems)" "newGame rnd k poems = Inr e"
  shows "pool_inv poems e"
proof -
  let ?ro = "fst (fisherYatesShuffle rnd k poems)"
  let ?rc = "fst (fisherYatesShuffle rnd (snd (fisherYatesShuffle rnd k poems)) poems)"
  have ro: "mset ?ro = mset poems" and rc: "mset ?rc = mset poems"
    using assms(1) by (simp_all add: fisherYatesShuffle_mset)
  have "mset (map poem_id ?rc) = mset (map poem_id poems)"
    using rc by (metis mset_map)
  then have "distinct (map poem_id ?rc)"
    using assms(2) by (metis mset_eq_imp_distinct_iff)
  moreover have "set ?ro = set poems" "set ?rc = set poems"
    using ro rc by (metis mset_eq_setD)+
  ultimately show ?thesis
    using newGame_Inr(3,4) [OF assms(3)] by (simp add: pool_inv_def)
qed

subsection \<open>Single calls\<close>

lemma current_card_running:
  assumes "engine_inv e" "\<not> gameOver e"
  shows "getCurrentReadingCard e = Some (readingOrder e ! currentRound e)"
  using assms by (simp add: engine_inv_def getCurrentReadingCard_def)

lemma current_card_over:
  assumes "gameOver e"
  shows "getCurrentReadingCard e = None"
  using assms by (simp add: getCurrentReadingCard_def)

lemma selectCard_over:
  assumes "gameOver e"
  shows "selectCard e cardId = (\<lparr>correct = False, correctCard = None\<rparr>, e)"
  using assms by (simp add: selectCard_def)

lemma nextRound_over:
  assumes "gameOver e"
  shows "nextRound e = (False, e)"
  using assms by (simp add: nextRound_def)

lemma selectCard_match:
  assumes "\<not> gameOver e" "getCurrentReadingCard e = Some p"
  shows "selectCard e (poem_id p) =
           (\<lparr>correct = True, correctCard = Some p\<rparr>,
            e\<lparr>score := score e + 1,
              remainingCards :=
                filter (\<lambda>card. poem_id card \<noteq> poem_id p) (remainingCards e)\<rparr>)"
  using assms by (simp add: selectCard_def)

lemma selectCard_mismatch:
  assumes "\<not> gameOver e" "getCurrentReadingCard e = Some p" "cardId \<noteq> poem_id p"
  shows "selectCard e cardId =
           (\<lparr>correct = False, correctCard = Some p\<rparr>,
            e\<lparr>incorrectCount := incorrectCount e + 1\<rparr>)"
  using assms by (simp add: selectCard_def)

lemma selectCard_frame:
  shows "readingOrder (snd (selectCard e cardId)) = readingOrder e"
    and "currentRound (snd (selectCard e cardId)) = currentRound e"
    and "totalRounds (snd (selectCard e cardId)) = totalRounds e"
    and "gameOver (snd (selectCard e cardId)) = gameOver e"
    and "allPoems (snd (selectCard e cardId)) = allPoems e"
  by (simp_all add: selectCard_def Let_def split: option.splits)

lemma nextRound_frame:
  shows "readingOrder (snd (nextRound e)) = readingOrder e"
    and "remainingCards (snd (nextRound e)) = remainingCards e"
    and "totalRounds (snd (nextRound e)) = totalRounds e"
    and "score (snd (nextRound e)) = score e"
    and "incorrectCount (snd (nextRound e)) = incorrectCount e"
    and "allPoems (snd (nextRound e)) = allPoems e"
  by (simp_all add: nextRound_def Let_def)

lemma engine_inv_step:
  assumes "engine_inv e"
  shows "engine_inv (call_step e c)"
proof (cases c)
  case (SelectCard cardId)
  then show ?thesis
    using assms by (auto simp: engine_inv_def selectCard_frame)
next
  case NextRound
  then show ?thesis
    using assms by (auto simp: engine_inv_def nextRound_def Let_def)
qed

lemma engine_inv_run:
  assumes "engine_inv e"
  shows "engine_inv (run e cs)"
  using assms by (induction cs arbitrary: e) (simp_all add: engine_inv_step)

lemma pool_inv_step:
  assumes "pool_inv poems e"
  shows "pool_inv poems (call_step e c)"
proof (cases c)
  case (SelectCard cardId)
  have "remainingCards (snd (selectCard e cardId)) = remainingCards e \<or>
        remainingCards (snd (selectCard e cardId)) =
          filter (\<lambda>card. poem_id card \<noteq> cardId) (remainingCards e)"
    by (simp add: selectCard_def Let_def split: option.splits)
  then show ?thesis
    using assms SelectCard
    by (auto simp: pool_inv_def selectCard_frame distinct_map_filter)
next
  case NextRound
  then show ?thesis
    using assms by (simp add: pool_inv_def nextRound_frame)
qed

lemma pool_inv_run:
  assumes "pool_inv poems e"
  shows "pool_inv poems (run e cs)"
  using assms by (induction cs arbitrary: e) (simp_all add: pool_inv_step)

lemma run_over:
  assumes "gameOver e"
  shows "run e cs = e"
proof (induction cs)
  case Nil
  show ?case by simp
next
  case (Cons c cs)
  have "call_step e c = e"
    using assms by (cases c) (simp_all add: selectCard_over nextRound_over)
  with Cons show ?case by simp
qed

lemma filter_id_remove1:
  assumes "distinct (map f xs)" "\<forall>c\<in>set xs. f c = f p \<longrightarrow> c = p"
  shows "filter (\<lambda>c. f c \<noteq> f p) xs = remove1 p xs"
  using assms
proof (induction xs)
  case Nil
  show ?case by simp
next
  case (Cons x xs)
  show ?case
  proof (cases "x = p")
    case True
    with Cons.prems(1) have "f p \<notin> f ` set xs" by simp
    then have "\<forall>c\<in>set xs. f c \<noteq> f p" by (metis imageI)
    then have "filter (\<lambda>c. f c \<noteq> f p) xs = xs" by simp
    with True show ?thesis by simp
  next
    case False
    with Cons.prems(2) have "f x \<noteq> f p" by auto
    with False Cons show ?thesis by simp
  qed
qed

subsection \<open>The sample games\<close>

lemma valid_rnd0: "valid_rng rnd0"
  by (simp add: valid_rng_def rnd0_def)

lemma newGame_sample2: "newGame rnd0 0 [poem1, poem2] = Inr game2"
  by (simp add: newGame_def new_GameEngine_def initGame_def fisherYatesShuffle_def
        rnd0_def game2_def Let_def)

lemma newGame_sample1: "newGame rnd0 0 [poem1] = Inr game1"
  by (simp add: newGame_def new_GameEngine_def initGame_def fisherYatesShuffle_def
        rnd0_def game1_def Let_def)

subsection \<open>Runs\<close>

lemma run_readingOrder: "readingOrder (run e cs) = readingOrder e"
proof (induction cs arbitrary: e)
  case Nil
  show ?case by simp
next
  case (Cons c cs)
  have "readingOrder (call_step e c) = readingOrder e"
    by (cases c) (simp_all add: selectCard_frame nextRound_frame)
  with Cons show ?case by simp
qed

subsection \<open>Counting judged attempts\<close>

lemma attempts_step:
  assumes "engine_inv e"
  shows "score (call_step e c) + incorrectCount (call_step e c) =
         score e + incorrectCount e + judged e [c]"
proof (cases c)
  case (SelectCard cardId)
  show ?thesis
  proof (cases "gameOver e")
    case True
    with SelectCard show ?thesis by (simp add: selectCard_over)
  next
    case False
    with assms SelectCard show ?thesis
      by (simp add: selectCard_def current_card_running Let_def)
  qed
next
  case NextRound
  then show ?thesis by (simp add: nextRound_frame)
qed

lemma judged_Cons: "judged e (c # cs) = judged e [c] + judged (call_step e c) cs"
  by (cases c) simp_all

lemma attempts_run:
  assumes "engine_inv e"
  shows "score (run e cs) + incorrectCount (run e cs) =
         score e + incorrectCount e + judged e cs"
  using assms
proof (induction cs arbitrary: e)
  case Nil
  show ?case by simp
next
  case (Cons c cs)
  have "score (run e (c # cs)) + incorrectCount (run e (c # cs)) =
        score (call_step e c) + incorrectCount (call_step e c) + judged (call_step e c) cs"
    using Cons.IH [of "call_step e c"] Cons.prems by (simp add: engine_inv_step)
  also have "\<dots> = score e + incorrectCount e + judged e [c] + judged (call_step e c) cs"
    using attempts_step [OF Cons.prems] by simp
  finally show ?case
    using judged_Cons [of e c cs] by simp
qed

text \<open>
  C4. For every game initialised by \<^verbatim>\<open>initGame\<close> and every sequence of \<^verbatim>\<open>selectCard\<close> and
  \<^verbatim>\<open>nextRound\<close> calls, \<open>score + incorrectCount\<close> equals the number of
  \<^verbatim>\<open>selectCard\<close> calls that were made while the game was not over.
\<close>

theorem attempts_counted:
  assumes "newGame rnd k poems = Inr e"
  shows "gs_score (getGameState (run e cs)) + gs_incorrectCount (getGameState (run e cs)) =
         judged e cs"
  using attempts_run [OF engine_inv_newGame [OF assms], of cs] newGame_Inr(7,8) [OF assms]
  by (simp add: getGameState_def)

text \<open>Six calls, of which four are selections and three of those happen before the end.\<close>

theorem attempts_counted_witness:
  "newGame rnd0 0 [poem1, poem2] = Inr game2 \<and>
   judged game2 [SelectCard 1, SelectCard 2, NextRound, SelectCard 1, NextRound, SelectCard 5] = 3 \<and>
   gs_score (getGameState (run game2
     [SelectCard 1, SelectCard 2, NextRound, SelectCard 1, NextRound, SelectCard 5])) +
   gs_incorrectCount (getGameState (run game2
     [SelectCard 1, SelectCard 2, NextRound, SelectCard 1, NextRound, SelectCard 5])) = 3"
proof -
  have "judged game2
      [SelectCard 1, SelectCard 2, NextRound, SelectCard 1, NextRound, SelectCard 5] = 3"
    by (simp add: game2_def selectCard_def nextRound_def getCurrentReadingCard_def
          poem1_def poem2_def Let_def)
  then show ?thesis
    using newGame_sample2 attempts_counted [OF newGame_sample2,
        of "[SelectCard 1, SelectCard 2, NextRound, SelectCard 1, NextRound, SelectCard 5]"]
    by simp
qed

subsection \<open>The round counter\<close>

text \<open>
  C1, as amended. For every game created from a non-empty poem array, initialised by
  \<^verbatim>\<open>initGame\<close> and driven by any sequence of \<^verbatim>\<open>selectCard\<close> and \<^verbatim>\<open>nextRound\<close> calls:
  the internal round index is at most \<open>totalRounds\<close>; the \<open>currentRound\<close> field of
  \<^verbatim>\<open>getGameState\<close> (the index plus one) is at most \<open>totalRounds + 1\<close>, and at most
  \<open>totalRounds\<close> as long as the game is not over.
\<close>

theorem currentRound_bound:
  assumes "newGame rnd k poems = Inr e"
  shows "currentRound (run e cs) \<le> totalRounds (run e cs) \<and>
         gs_currentRound (getGameState (run e cs)) \<le> gs_totalRounds (getGameState (run e cs)) + 1 \<and>
         (gs_isGameOver (getGameState (run e cs)) \<or>
          gs_currentRound (getGameState (run e cs)) \<le> gs_totalRounds (getGameState (run e cs)))"
  using engine_inv_run [OF engine_inv_newGame [OF assms], of cs]
  by (auto simp: engine_inv_def getGameState_def)

text \<open>A two-poem game played to its end: the bound \<open>totalRounds + 1\<close> is attained.\<close>

theorem currentRound_bound_witness:
  "newGame rnd0 0 [poem1, poem2] = Inr game2 \<and>
   gs_currentRound (getGameState (run game2 [NextRound, SelectCard 1, NextRound])) = 3 \<and>
   gs_totalRounds (getGameState (run game2 [NextRound, SelectCard 1, NextRound])) = 2 \<and>
   gs_isGameOver (getGameState (run game2 [NextRound, SelectCard 1, NextRound]))"
  using currentRound_bound [OF newGame_sample2, of "[NextRound, SelectCard 1, NextRound]"]
    newGame_sample2
  by (simp add: game2_def getGameState_def nextRound_def selectCard_def
        getCurrentReadingCard_def poem1_def poem2_def Let_def)

text \<open>
  The claim as stated fails: in a one-poem game, after \<^verbatim>\<open>initGame\<close> and one
  \<^verbatim>\<open>nextRound\<close>, \<^verbatim>\<open>getGameState\<close> reports \<open>currentRound = 2\<close> and \<open>totalRounds = 1\<close>.
\<close>

theorem currentRound_exceeds_totalRounds:
  "newGame rnd0 0 [poem1] = Inr game1 \<and>
   \<not> gs_currentRound (getGameState (run game1 [NextRound]))
       \<le> gs_totalRounds (getGameState (run game1 [NextRound]))"
  using newGame_sample1
  by (simp add: game1_def getGameState_def nextRound_def Let_def)

subsection \<open>Judging a selection\<close>

text \<open>
  C2. After \<^verbatim>\<open>initGame\<close> on poems with pairwise distinct ids, in every state that is not
  over there is a current prompt \<open>p\<close>. \<^verbatim>\<open>selectCard\<close> with the id of \<open>p\<close> returns
  \<open>correct = True\<close> with \<open>p\<close> as the correct card, adds one to the score and removes
  exactly the card \<open>p\<close> from the pool, the other cards keeping their order (\<open>remove1\<close>),
  after which no card with that id is left; nothing else changes. \<^verbatim>\<open>selectCard\<close> with any other id returns \<open>correct = False\<close>,
  adds one to \<open>incorrectCount\<close> and changes nothing else, so the pool is untouched.
\<close>

theorem selectCard_judges:
  assumes "valid_rng rnd" "distinct (map poem_id poems)" "newGame rnd k poems = Inr e"
    and "\<not> isGameOver (run e cs)"
  shows "\<exists>p. getCurrentReadingCard (run e cs) = Some p \<and>
           selectCard (run e cs) (poem_id p) =
             (\<lparr>correct = True, correctCard = Some p\<rparr>,
              (run e cs)\<lparr>score := score (run e cs) + 1,
                         remainingCards := remove1 p (remainingCards (run e cs))\<rparr>) \<and>
           (\<forall>c\<in>set (remove1 p (remainingCards (run e cs))). poem_id c \<noteq> poem_id p) \<and>
           (\<forall>cardId. cardId \<noteq> poem_id p \<longrightarrow>
              selectCard (run e cs) cardId =
                (\<lparr>correct = False, correctCard = Some p\<rparr>,
                 (run e cs)\<lparr>incorrectCount := incorrectCount (run e cs) + 1\<rparr>))"
proof -
  let ?s = "run e cs"
  let ?p = "readingOrder ?s ! currentRound ?s"
  have inv: "engine_inv ?s"
    using engine_inv_newGame [OF assms(3)] by (rule engine_inv_run)
  have pool: "pool_inv poems ?s"
    using pool_inv_newGame [OF assms(1,2,3)] by (rule pool_inv_run)
  have running: "\<not> gameOver ?s"
    using assms(4) by (simp add: isGameOver_def)
  have cur: "getCurrentReadingCard ?s = Some ?p"
    using inv running by (rule current_card_running)
  have "currentRound ?s < length (readingOrder ?s)"
    using inv running by (simp add: engine_inv_def)
  then have "?p \<in> set (readingOrder ?s)" by simp
  with pool have p_in: "?p \<in> set poems" by (auto simp: pool_inv_def)
  have inj: "inj_on poem_id (set poems)"
    using assms(2) by (simp add: distinct_map)
  have "\<forall>c\<in>set (remainingCards ?s). poem_id c = poem_id ?p \<longrightarrow> c = ?p"
  proof (intro ballI impI)
    fix c assume "c \<in> set (remainingCards ?s)" "poem_id c = poem_id ?p"
    moreover from this pool have "c \<in> set poems" by (auto simp: pool_inv_def)
    ultimately show "c = ?p" using inj p_in by (simp add: inj_on_def)
  qed
  moreover have "distinct (map poem_id (remainingCards ?s))"
    using pool by (simp add: pool_inv_def)
  ultimately have removed: "filter (\<lambda>c. poem_id c \<noteq> poem_id ?p) (remainingCards ?s) =
      remove1 ?p (remainingCards ?s)"
    by (intro filter_id_remove1) simp_all
  have "\<forall>c\<in>set (filter (\<lambda>c. poem_id c \<noteq> poem_id ?p) (remainingCards ?s)).
      poem_id c \<noteq> poem_id ?p"
    by simp
  then have gone: "\<forall>c\<in>set (remove1 ?p (remainingCards ?s)). poem_id c \<noteq> poem_id ?p"
    unfolding removed .
  have "selectCard ?s (poem_id ?p) =
      (\<lparr>correct = True, correctCard = Some ?p\<rparr>,
       ?s\<lparr>score := score ?s + 1, remainingCards := remove1 ?p (remainingCards ?s)\<rparr>)"
    using selectCard_match [OF running cur] removed by simp
  moreover note gone
  moreover have "\<forall>cardId. cardId \<noteq> poem_id ?p \<longrightarrow>
      selectCard ?s cardId =
        (\<lparr>correct = False, correctCard = Some ?p\<rparr>,
         ?s\<lparr>incorrectCount := incorrectCount ?s + 1\<rparr>)"
    using selectCard_mismatch [OF running cur] by simp
  ultimately show ?thesis using cur by blast
qed

text \<open>The two-poem game after one wrong selection: the prompt is still the second poem.\<close>

theorem selectCard_judges_witness:
  "valid_rng rnd0 \<and> distinct (map poem_id [poem1, poem2]) \<and>
   newGame rnd0 0 [poem1, poem2] = Inr game2 \<and>
   \<not> isGameOver (run game2 [SelectCard 1]) \<and>
   getCurrentReadingCard (run game2 [SelectCard 1]) = Some poem2 \<and>
   selectCard (run game2 [SelectCard 1]) 2 =
     (\<lparr>correct = True, correctCard = Some poem2\<rparr>,
      game2\<lparr>incorrectCount := 1, score := 1, remainingCards := [poem1]\<rparr>) \<and>
   selectCard (run game2 [SelectCard 1]) 7 =
     (\<lparr>correct = False, correctCard = Some poem2\<rparr>, game2\<lparr>incorrectCount := 2\<rparr>)"
proof -
  have d: "distinct (map poem_id [poem1, poem2])"
    by (simp add: poem1_def poem2_def)
  have r: "run game2 [SelectCard 1] = game2\<lparr>incorrectCount := 1\<rparr>"
    by (simp add: game2_def selectCard_def getCurrentReadingCard_def poem1_def poem2_def)
  have running: "\<not> isGameOver (run game2 [SelectCard 1])"
    unfolding r by (simp add: isGameOver_def game2_def)
  have cur: "getCurrentReadingCard (run game2 [SelectCard 1]) = Some poem2"
    unfolding r by (simp add: getCurrentReadingCard_def game2_def)
  from selectCard_judges [OF valid_rnd0 d newGame_sample2 running] cur
  have "selectCard (run game2 [SelectCard 1]) (poem_id poem2) =
          (\<lparr>correct = True, correctCard = Some poem2\<rparr>,
           (run game2 [SelectCard 1])\<lparr>score := score (run game2 [SelectCard 1]) + 1,
              remainingCards := remove1 poem2 (remainingCards (run game2 [SelectCard 1]))\<rparr>)"
    and "7 \<noteq> poem_id poem2 \<longrightarrow> selectCard (run game2 [SelectCard 1]) 7 =
          (\<lparr>correct = False, correctCard = Some poem2\<rparr>,
           (run game2 [SelectCard 1])\<lparr>incorrectCount :=
              incorrectCount (run game2 [SelectCard 1]) + 1\<rparr>)"
    by auto
  then show ?thesis
    using valid_rnd0 d newGame_sample2 running cur
    unfolding r by (simp add: game2_def poem1_def poem2_def)
qed

subsection \<open>Advancing the round\<close>

text \<open>
  C3. In a state that is already over, \<^verbatim>\<open>nextRound\<close> returns false and changes nothing.
  In a state that is not over it increments the round index; it marks the game over
  exactly when the incremented index has reached \<open>totalRounds\<close> or the pool is empty,
  returning false in that case and true otherwise; no other field changes.
\<close>

theorem nextRound_advances:
  "(gameOver e \<longrightarrow> nextRound e = (False, e)) \<and>
   (\<not> gameOver e \<longrightarrow>
      currentRound (snd (nextRound e)) = currentRound e + 1 \<and>
      gameOver (snd (nextRound e)) =
        (currentRound e + 1 \<ge> totalRounds e \<or> remainingCards e = []) \<and>
      fst (nextRound e) =
        (\<not> (currentRound e + 1 \<ge> totalRounds e \<or> remainingCards e = [])) \<and>
      snd (nextRound e) =
        e\<lparr>currentRound := currentRound e + 1,
          gameOver := (currentRound e + 1 \<ge> totalRounds e \<or> remainingCards e = [])\<rparr>)"
  by (simp add: nextRound_def Let_def)

text \<open>All three cases: a round that continues, the last round, and a call after the end.\<close>

theorem nextRound_advances_witness:
  "\<not> gameOver game2 \<and> nextRound game2 = (True, game2\<lparr>currentRound := 1\<rparr>) \<and>
   \<not> gameOver game1 \<and> nextRound game1 = (False, game1\<lparr>currentRound := 1, gameOver := True\<rparr>) \<and>
   gameOver (snd (nextRound game1)) \<and>
   nextRound (snd (nextRound game1)) = (False, snd (nextRound game1))"
  using nextRound_advances [of game2] nextRound_advances [of game1]
    nextRound_advances [of "snd (nextRound game1)"]
  by (simp add: game1_def game2_def prod_eq_iff)

subsection \<open>The current prompt\<close>

text \<open>
  C5. For every game initialised by \<^verbatim>\<open>initGame\<close> on a non-empty collection and every
  sequence of \<^verbatim>\<open>selectCard\<close> and \<^verbatim>\<open>nextRound\<close> calls, \<^verbatim>\<open>getCurrentReadingCard\<close>
  returns none exactly when \<^verbatim>\<open>isGameOver\<close> is true, and any poem it returns is a poem of
  the original collection (so its id occurs there).
\<close>

theorem current_prompt_valid:
  assumes "valid_rng rnd" "newGame rnd k poems = Inr e"
  shows "(getCurrentReadingCard (run e cs) = None \<longleftrightarrow> isGameOver (run e cs)) \<and>
         (\<forall>p. getCurrentReadingCard (run e cs) = Some p \<longrightarrow>
            p \<in> set poems \<and> poem_id p \<in> poem_id ` set poems)"
proof -
  let ?s = "run e cs"
  have inv: "engine_inv ?s"
    using engine_inv_newGame [OF assms(2)] by (rule engine_inv_run)
  have "mset (readingOrder ?s) = mset poems"
    using assms(1) newGame_Inr(3) [OF assms(2)]
    by (simp add: run_readingOrder fisherYatesShuffle_mset)
  then have ro: "set (readingOrder ?s) = set poems"
    by (rule mset_eq_setD)
  show ?thesis
  proof (cases "gameOver ?s")
    case True
    then show ?thesis
      by (simp add: current_card_over isGameOver_def)
  next
    case False
    have "currentRound ?s < length (readingOrder ?s)"
      using inv False by (simp add: engine_inv_def)
    then have "readingOrder ?s ! currentRound ?s \<in> set poems"
      using ro nth_mem by blast
    then show ?thesis
      using False by (simp add: current_card_running [OF inv False] isGameOver_def)
  qed
qed

text \<open>The two-poem game in its second round, and after its end.\<close>

theorem current_prompt_valid_witness:
  "valid_rng rnd0 \<and> newGame rnd0 0 [poem1, poem2] = Inr game2 \<and>
   getCurrentReadingCard (run game2 [SelectCard 2, NextRound]) = Some poem1 \<and>
   poem1 \<in> set [poem1, poem2] \<and> \<not> isGameOver (run game2 [SelectCard 2, NextRound]) \<and>
   getCurrentReadingCard (run game2 [SelectCard 2, NextRound, NextRound]) = None \<and>
   isGameOver (run game2 [SelectCard 2, NextRound, NextRound])"
  using current_prompt_valid [OF valid_rnd0 newGame_sample2, of "[SelectCard 2, NextRound]"]
    current_prompt_valid [OF valid_rnd0 newGame_sample2, of "[SelectCard 2, NextRound, NextRound]"]
    valid_rnd0 newGame_sample2
  by (simp add: game2_def selectCard_def nextRound_def getCurrentReadingCard_def
        isGameOver_def poem1_def poem2_def Let_def)

subsection \<open>After the end of the game\<close>

text \<open>
  C6. Once \<^verbatim>\<open>isGameOver\<close> is true, \<^verbatim>\<open>selectCard\<close> and \<^verbatim>\<open>nextRound\<close> leave the whole engine
  state as it is, and so does every sequence of such calls; \<^verbatim>\<open>initGame\<close> does change
  the state: it clears the game-over flag.
\<close>

theorem game_over_frozen:
  assumes "isGameOver e"
  shows "selectCard e cardId = (\<lparr>correct = False, correctCard = None\<rparr>, e) \<and>
         nextRound e = (False, e) \<and>
         run e cs = e \<and>
         \<not> isGameOver (fst (snd (initGame rnd k e))) \<and>
         fst (snd (initGame rnd k e)) \<noteq> e"
proof -
  have over: "gameOver e"
    using assms by (simp add: isGameOver_def)
  have "\<not> gameOver (fst (snd (initGame rnd k e)))"
    by (simp add: initGame_def Let_def case_prod_unfold)
  then show ?thesis
    using over by (auto simp: selectCard_over nextRound_over run_over isGameOver_def)
qed

text \<open>A finished one-poem game ignores further calls, and \<^verbatim>\<open>initGame\<close> restarts it.\<close>

theorem game_over_frozen_witness:
  "isGameOver (run game1 [SelectCard 1, NextRound]) \<and>
   run game1 [SelectCard 1, NextRound, SelectCard 1, NextRound, SelectCard 3] =
     run game1 [SelectCard 1, NextRound] \<and>
   fst (snd (initGame rnd0 0 (run game1 [SelectCard 1, NextRound]))) = game1"
proof -
  have r: "run game1 [SelectCard 1, NextRound] =
      game1\<lparr>score := 1, remainingCards := [], currentRound := 1, gameOver := True\<rparr>"
    by (simp add: game1_def selectCard_def nextRound_def getCurrentReadingCard_def
          poem1_def Let_def)
  have over: "isGameOver (run game1 [SelectCard 1, NextRound])"
    unfolding r by (simp add: isGameOver_def)
  have "run (run game1 [SelectCard 1, NextRound]) [SelectCard 1, NextRound, SelectCard 3] =
      run game1 [SelectCard 1, NextRound]"
    using game_over_frozen [OF over] by simp
  moreover have "fst (snd (initGame rnd0 0 (run game1 [SelectCard 1, NextRound]))) = game1"
    unfolding r by (simp add: game1_def initGame_def fisherYatesShuffle_def Let_def)
  ultimately show ?thesis
    using over by simp
qed

subsection \<open>The shuffle is a permutation\<close>

text \<open>
  C8. For every input array and every sequence of random numbers that \<^verbatim>\<open>Math.random\<close>
  can return, \<^verbatim>\<open>fisherYatesShuffle\<close> returns a permutation of its input (the same
  multiset of elements); consequently \<^verbatim>\<open>initGame\<close> on a non-empty collection succeeds and
  both the reading order and the pool are permutations of the collection, with the
  same multiset of ids.
\<close>

theorem shuffle_is_permutation:
  assumes "valid_rng rnd"
  shows "mset (fst (fisherYatesShuffle rnd k xs)) = mset xs \<and>
         (poems \<noteq> [] \<longrightarrow>
            (\<exists>e. newGame rnd k poems = Inr e \<and>
                 mset (readingOrder e) = mset poems \<and>
                 mset (remainingCards e) = mset poems \<and>
                 mset (map poem_id (readingOrder e)) = mset (map poem_id poems) \<and>
                 mset (map poem_id (remainingCards e)) = mset (map poem_id poems)))"
proof (intro conjI impI)
  show "mset (fst (fisherYatesShuffle rnd k xs)) = mset xs"
    using assms by (rule fisherYatesShuffle_mset)
next
  assume "poems \<noteq> []"
  then obtain e where e: "newGame rnd k poems = Inr e"
    using newGame_nonempty by blast
  have ro: "mset (readingOrder e) = mset poems" and rc: "mset (remainingCards e) = mset poems"
    using assms newGame_Inr(3,4) [OF e] by (simp_all add: fisherYatesShuffle_mset)
  have "mset (map poem_id (readingOrder e)) = mset (map poem_id poems)"
    using ro by (metis mset_map)
  moreover have "mset (map poem_id (remainingCards e)) = mset (map poem_id poems)"
    using rc by (metis mset_map)
  ultimately show "\<exists>e. newGame rnd k poems = Inr e \<and>
      mset (readingOrder e) = mset poems \<and> mset (remainingCards e) = mset poems \<and>
      mset (map poem_id (readingOrder e)) = mset (map poem_id poems) \<and>
      mset (map poem_id (remainingCards e)) = mset (map poem_id poems)"
    using e ro rc by blast
qed

text \<open>With the oracle that always returns 0 the shuffle rotates a three-element array.\<close>

theorem shuffle_is_permutation_witness:
  "valid_rng rnd0 \<and>
   fst (fisherYatesShuffle rnd0 0 [1, 2, 3 :: int]) = [2, 3, 1] \<and>
   mset [2, 3, 1 :: int] = mset [1, 2, 3] \<and>
   newGame rnd0 0 [poem1, poem2] = Inr game2 \<and>
   mset (readingOrder game2) = mset [poem1, poem2] \<and>
   mset (remainingCards game2) = mset [poem1, poem2]"
proof -
  have sh: "fst (fisherYatesShuffle rnd0 0 [1, 2, 3 :: int]) = [2, 3, 1]"
    by (simp add: fisherYatesShuffle_def rnd0_def Let_def numeral_2_eq_2)
  have ne: "[poem1, poem2] \<noteq> []" by simp
  from shuffle_is_permutation [OF valid_rnd0, of 0 "[1, 2, 3 :: int]" "[poem1, poem2]"]
  show ?thesis
    using sh ne valid_rnd0 newGame_sample2 by auto
qed

subsection \<open>Selecting the prompt twice\<close>

text \<open>
  C10. While the game is not over, two consecutive \<^verbatim>\<open>selectCard\<close> calls with the id of
  the current prompt both return \<open>correct = True\<close> with the prompt as correct card; the
  second call adds one to the score again and leaves the pool as the first call left
  it, so the score has grown by two.
\<close>

theorem double_select_scores_twice:
  assumes "\<not> isGameOver e" "getCurrentReadingCard e = Some p"
  shows "fst (selectCard e (poem_id p)) = \<lparr>correct = True, correctCard = Some p\<rparr> \<and>
         fst (selectCard (snd (selectCard e (poem_id p))) (poem_id p)) =
           \<lparr>correct = True, correctCard = Some p\<rparr> \<and>
         score (snd (selectCard (snd (selectCard e (poem_id p))) (poem_id p))) =
           score (snd (selectCard e (poem_id p))) + 1 \<and>
         remainingCards (snd (selectCard (snd (selectCard e (poem_id p))) (poem_id p))) =
           remainingCards (snd (selectCard e (poem_id p))) \<and>
         score (snd (selectCard (snd (selectCard e (poem_id p))) (poem_id p))) = score e + 2"
proof -
  let ?s1 = "snd (selectCard e (poem_id p))"
  have running: "\<not> gameOver e"
    using assms(1) by (simp add: isGameOver_def)
  have s1: "?s1 = e\<lparr>score := score e + 1,
      remainingCards := filter (\<lambda>card. poem_id card \<noteq> poem_id p) (remainingCards e)\<rparr>"
    using selectCard_match [OF running assms(2)] by simp
  have running1: "\<not> gameOver ?s1"
    using running by (simp add: selectCard_frame)
  have cur1: "getCurrentReadingCard ?s1 = Some p"
    unfolding s1 using assms(2)
    by (simp add: getCurrentReadingCard_def split: if_splits)
  show ?thesis
    using selectCard_match [OF running assms(2)] selectCard_match [OF running1 cur1]
    by (simp add: s1)
qed

text \<open>In the two-poem game this gives score 2 with a single card removed from the pool.\<close>

theorem double_select_scores_twice_witness:
  "\<not> isGameOver game2 \<and> getCurrentReadingCard game2 = Some poem2 \<and>
   score (run game2 [SelectCard 2, SelectCard 2]) = 2 \<and>
   remainingCards (run game2 [SelectCard 2, SelectCard 2]) = [poem1] \<and>
   remainingCards (run game2 [SelectCard 2]) = [poem1] \<and>
   length (remainingCards game2) - length (remainingCards (run game2 [SelectCard 2, SelectCard 2]))
     < score (run game2 [SelectCard 2, SelectCard 2])"
proof -
  have running: "\<not> isGameOver game2"
    by (simp add: isGameOver_def game2_def)
  have cur: "getCurrentReadingCard game2 = Some poem2"
    by (simp add: getCurrentReadingCard_def game2_def)
  have id2: "poem_id poem2 = 2"
    by (simp add: poem2_def)
  have one: "remainingCards (run game2 [SelectCard 2]) = [poem1]"
    by (simp add: game2_def selectCard_def getCurrentReadingCard_def poem1_def poem2_def)
  have len: "length (remainingCards game2) = 2"
    by (simp add: game2_def)
  have sc: "score game2 = 0"
    by (simp add: game2_def)
  from double_select_scores_twice [OF running cur]
  show ?thesis
    using running cur one len sc by (simp add: id2)
qed

section \<open>Properties of binary64 rounding\<close>

subsection \<open>Rounding a quotient to an integer\<close>





subsection \<open>The exponent normalises the mantissa\<close>







subsection \<open>Error and monotonicity of the rounded quotient\<close>












subsection \<open>Rounding integers\<close>




section \<open>Properties of the score manager\<close>








subsection \<open>The sample states\<close>




















section \<open>Properties of the poem validator\<close>



















lemma present_replicate_None: "present (replicate n None) = []"
  by (induction n) simp_all


subsection \<open>The sample collections\<close>









end
